theory Spec2Isabelle
  imports Main "HOL-Library.Sublist"
begin

section \<open>Nonce codec and replay window (openid/store/nonce.py)\<close>

text \<open>
  Python text is modelled as \<open>string\<close>, a list of 8-bit characters, and Python's unbounded
  integers as \<open>int\<close>. An exception is a value on the left of a sum.
\<close>

datatype exn = ValueError

subsection \<open>Calendar arithmetic of the standard library (datetime, calendar.timegm)\<close>

definition is_leap :: "int \<Rightarrow> bool" where
  "is_leap year = (year mod 4 = 0 \<and> (year mod 100 \<noteq> 0 \<or> year mod 400 = 0))"

definition days_before_year :: "int \<Rightarrow> int" where
  "days_before_year year = (let y = year - 1 in y * 365 + y div 4 - y div 100 + y div 400)"

definition DAYS_IN_MONTH :: "int list" where
  "DAYS_IN_MONTH = [-1, 31, 28, 31, 30, 31, 30, 31, 31, 30, 31, 30, 31]"

definition DAYS_BEFORE_MONTH :: "int list" where
  "DAYS_BEFORE_MONTH = [-1, 0, 31, 59, 90, 120, 151, 181, 212, 243, 273, 304, 334]"

definition days_in_month :: "int \<Rightarrow> int \<Rightarrow> int" where
  "days_in_month year month =
     (if month = 2 \<and> is_leap year then 29 else DAYS_IN_MONTH ! nat month)"

definition days_before_month :: "int \<Rightarrow> int \<Rightarrow> int" where
  "days_before_month year month =
     DAYS_BEFORE_MONTH ! nat month + (if month > 2 \<and> is_leap year then 1 else 0)"

definition ymd2ord :: "int \<Rightarrow> int \<Rightarrow> int \<Rightarrow> int" where
  "ymd2ord year month day = days_before_year year + days_before_month year month + day"

definition MINYEAR :: int where "MINYEAR = 1"
definition MAXYEAR :: int where "MAXYEAR = 9999"

text \<open>
  The constructor \<open>datetime.date(year, month, day)\<close> raises ValueError unless the fields
  name a day of the proleptic Gregorian calendar; the month is checked before the table of
  month lengths is read.
\<close>

definition check_date_fields :: "int \<Rightarrow> int \<Rightarrow> int \<Rightarrow> exn + (int \<times> int \<times> int)" where
  "check_date_fields year month day =
     (if \<not> (MINYEAR \<le> year \<and> year \<le> MAXYEAR) then Inl ValueError
      else if \<not> (1 \<le> month \<and> month \<le> 12) then Inl ValueError
      else if \<not> (1 \<le> day \<and> day \<le> days_in_month year month) then Inl ValueError
      else Inr (year, month, day))"

definition date_toordinal :: "int \<Rightarrow> int \<Rightarrow> int \<Rightarrow> exn + int" where
  "date_toordinal year month day =
     (case check_date_fields year month day of
        Inl e \<Rightarrow> Inl e
      | Inr (y, m, d) \<Rightarrow> Inr (ymd2ord y m d))"

definition DI400Y :: int where "DI400Y = 146097"
definition DI100Y :: int where "DI100Y = 36524"
definition DI4Y :: int where "DI4Y = 1461"

text \<open>The inverse of \<open>ymd2ord\<close>, as \<open>datetime\<close> computes it (\<open>divmod\<close> is floor division).\<close>

definition ord2ymd :: "int \<Rightarrow> int \<times> int \<times> int" where
  "ord2ymd n0 =
     (let n = n0 - 1;
          n400 = n div DI400Y; n = n mod DI400Y;
          year = n400 * 400 + 1;
          n100 = n div DI100Y; n = n mod DI100Y;
          n4 = n div DI4Y; n = n mod DI4Y;
          n1 = n div 365; n = n mod 365;
          year = year + n100 * 100 + n4 * 4 + n1
      in if n1 = 4 \<or> n100 = 4 then (year - 1, 12, 31)
         else
           let leapyear = (n1 = 3 \<and> (n4 \<noteq> 24 \<or> n100 = 3));
               month = (n + 50) div 32;
               preceding = DAYS_BEFORE_MONTH ! nat month + (if month > 2 \<and> leapyear then 1 else 0);
               (month, preceding) =
                  (if preceding > n
                   then (month - 1,
                         preceding - (DAYS_IN_MONTH ! nat (month - 1)
                                       + (if month - 1 = 2 \<and> leapyear then 1 else 0)))
                   else (month, preceding));
               n = n - preceding
           in (year, month, n + 1))"

text \<open>
  A \<open>time.struct_time\<close>; only the six fields that \<open>timegm\<close> and the format
  \<open>time_fmt\<close> read are kept.
\<close>

record struct_time =
  tm_year :: int
  tm_mon :: int
  tm_mday :: int
  tm_hour :: int
  tm_min :: int
  tm_sec :: int

definition EPOCH_ORD :: int where "EPOCH_ORD = 719163"

definition timegm :: "struct_time \<Rightarrow> exn + int" where
  "timegm t =
     (case date_toordinal (tm_year t) (tm_mon t) 1 of
        Inl e \<Rightarrow> Inl e
      | Inr ordinal \<Rightarrow>
          let days = ordinal - EPOCH_ORD + tm_mday t - 1;
              hours = days * 24 + tm_hour t;
              minutes = hours * 60 + tm_min t;
              seconds = minutes * 60 + tm_sec t
          in Inr seconds)"

text \<open>
  \<open>time.gmtime(secs)\<close> for an integer number of seconds since the epoch: days of 86400
  seconds, the date from the day number. The limits of the platform's \<open>time_t\<close> are not
  modelled.
\<close>

definition gmtime :: "int \<Rightarrow> struct_time" where
  "gmtime secs =
     (let days = secs div 86400;
          rem = secs mod 86400;
          (y, m, d) = ord2ymd (days + EPOCH_ORD)
      in \<lparr>tm_year = y, tm_mon = m, tm_mday = d,
          tm_hour = rem div 3600, tm_min = rem mod 3600 div 60, tm_sec = rem mod 60\<rparr>)"

subsection \<open>Formatting: time.strftime\<close>

definition digit_char :: "nat \<Rightarrow> char" where
  "digit_char n = char_of (48 + n)"

fun digits_of :: "nat \<Rightarrow> string" where
  "digits_of n = (if n < 10 then [digit_char n] else digits_of (n div 10) @ [digit_char (n mod 10)])"

declare digits_of.simps [simp del]

definition str_int :: "int \<Rightarrow> string" where
  "str_int i = (if i < 0 then CHR ''-'' # digits_of (nat (- i)) else digits_of (nat i))"

text \<open>The C conversion \<open>%02d\<close>.\<close>

definition pad2 :: "int \<Rightarrow> string" where
  "pad2 i = (if 0 \<le> i \<and> i < 10 then CHR ''0'' # str_int i else str_int i)"

text \<open>
  \<open>strftime\<close> walks the format; \<open>%Y\<close> is the year in decimal (as the C library
  prints it, without padding), the other five directives are two-digit fields. Directives
  that \<open>time_fmt\<close> does not use are copied unchanged.
\<close>

fun strftime :: "string \<Rightarrow> struct_time \<Rightarrow> string" where
  "strftime [] t = []"
| "strftime [c] t = [c]"
| "strftime (c # d # cs) t =
     (if c = CHR ''%'' then
        (if d = CHR ''Y'' then str_int (tm_year t) @ strftime cs t
         else if d = CHR ''m'' then pad2 (tm_mon t) @ strftime cs t
         else if d = CHR ''d'' then pad2 (tm_mday t) @ strftime cs t
         else if d = CHR ''H'' then pad2 (tm_hour t) @ strftime cs t
         else if d = CHR ''M'' then pad2 (tm_min t) @ strftime cs t
         else if d = CHR ''S'' then pad2 (tm_sec t) @ strftime cs t
         else c # d # strftime cs t)
      else c # strftime (d # cs) t)"

subsection \<open>Parsing: time.strptime\<close>

text \<open>
  \<open>_strptime\<close> turns the format into a regular expression, compiles it with IGNORECASE
  and matches it at the start of the input. The expressions below are those of
  \<open>TimeRE\<close>; \<open>rmatch\<close> is a backtracking matcher that lists every way to match, in
  the order in which Python's \<open>re\<close> tries them, each with the rest of the input and the
  named groups captured so far. The first entry is the match \<open>re.match\<close> returns.
\<close>

datatype regex =
    Emp
  | Chr char
  | Dig
  | Rng char char
  | Cat regex regex
  | Alt regex regex
  | Grp string regex

definition lower_code :: "nat \<Rightarrow> nat" where
  "lower_code n = (if 65 \<le> n \<and> n \<le> 90 then n + 32 else n)"

definition eq_ignorecase :: "char \<Rightarrow> char \<Rightarrow> bool" where
  "eq_ignorecase a b = (lower_code (of_char a) = lower_code (of_char b))"

definition is_digit :: "char \<Rightarrow> bool" where
  "is_digit c = (48 \<le> (of_char c :: nat) \<and> (of_char c :: nat) \<le> 57)"

definition in_range :: "char \<Rightarrow> char \<Rightarrow> char \<Rightarrow> bool" where
  "in_range a b c = ((of_char a :: nat) \<le> of_char c \<and> (of_char c :: nat) \<le> of_char b)"

type_synonym groups = "(string \<times> string) list"

fun rmatch :: "regex \<Rightarrow> string \<Rightarrow> groups \<Rightarrow> (string \<times> groups) list" where
  "rmatch Emp s g = [(s, g)]"
| "rmatch (Chr c) s g =
     (case s of [] \<Rightarrow> [] | x # xs \<Rightarrow> if eq_ignorecase c x then [(xs, g)] else [])"
| "rmatch Dig s g =
     (case s of [] \<Rightarrow> [] | x # xs \<Rightarrow> if is_digit x then [(xs, g)] else [])"
| "rmatch (Rng a b) s g =
     (case s of [] \<Rightarrow> [] | x # xs \<Rightarrow> if in_range a b x then [(xs, g)] else [])"
| "rmatch (Cat r1 r2) s g = concat (map (\<lambda>(s', g'). rmatch r2 s' g') (rmatch r1 s g))"
| "rmatch (Alt r1 r2) s g = rmatch r1 s g @ rmatch r2 s g"
| "rmatch (Grp name r) s g =
     map (\<lambda>(s', g'). (s', (name, take (length s - length s') s) # g')) (rmatch r s g)"

text \<open>
  The directives of \<open>TimeRE\<close> that \<open>time_fmt\<close> uses:
  \<^verbatim>\<open>
  'd': r"(?P<d>3[0-1]|[1-2]\d|0[1-9]|[1-9]| [1-9])",
  'H': r"(?P<H>2[0-3]|[0-1]\d|\d)",
  'm': r"(?P<m>1[0-2]|0[1-9]|[1-9])",
  'M': r"(?P<M>[0-5]\d|\d)",
  'S': r"(?P<S>6[0-1]|[0-5]\d|\d)",
  'Y': r"(?P<Y>\d\d\d\d)",
  \<close>
\<close>

definition rx_d :: regex where
  "rx_d = Grp ''d'' (Alt (Cat (Chr CHR ''3'') (Rng CHR ''0'' CHR ''1''))
                    (Alt (Cat (Rng CHR ''1'' CHR ''2'') Dig)
                    (Alt (Cat (Chr CHR ''0'') (Rng CHR ''1'' CHR ''9''))
                    (Alt (Rng CHR ''1'' CHR ''9'')
                         (Cat (Chr CHR '' '') (Rng CHR ''1'' CHR ''9''))))))"

definition rx_H :: regex where
  "rx_H = Grp ''H'' (Alt (Cat (Chr CHR ''2'') (Rng CHR ''0'' CHR ''3''))
                    (Alt (Cat (Rng CHR ''0'' CHR ''1'') Dig)
                         Dig))"

definition rx_m :: regex where
  "rx_m = Grp ''m'' (Alt (Cat (Chr CHR ''1'') (Rng CHR ''0'' CHR ''2''))
                    (Alt (Cat (Chr CHR ''0'') (Rng CHR ''1'' CHR ''9''))
                         (Rng CHR ''1'' CHR ''9'')))"

definition rx_M :: regex where
  "rx_M = Grp ''M'' (Alt (Cat (Rng CHR ''0'' CHR ''5'') Dig) Dig)"

definition rx_S :: regex where
  "rx_S = Grp ''S'' (Alt (Cat (Chr CHR ''6'') (Rng CHR ''0'' CHR ''1''))
                    (Alt (Cat (Rng CHR ''0'' CHR ''5'') Dig)
                         Dig))"

definition rx_Y :: regex where
  "rx_Y = Grp ''Y'' (Cat Dig (Cat Dig (Cat Dig Dig)))"

definition directives :: "(char \<times> regex) list" where
  "directives =
     [(CHR ''d'', rx_d), (CHR ''H'', rx_H), (CHR ''m'', rx_m),
      (CHR ''M'', rx_M), (CHR ''S'', rx_S), (CHR ''Y'', rx_Y)]"

text \<open>
  \<open>TimeRE.pattern\<close>: a directive becomes its expression, any other character stands
  for itself. A directive outside the table is a bad directive (\<open>None\<close>).
\<close>

fun pattern :: "string \<Rightarrow> regex option" where
  "pattern [] = Some Emp"
| "pattern (c # cs) =
     (if c = CHR ''%'' then
        (case cs of
           [] \<Rightarrow> None
         | d # rest \<Rightarrow>
             (case map_of directives d of
                None \<Rightarrow> None
              | Some r \<Rightarrow> map_option (Cat r) (pattern rest)))
      else map_option (Cat (Chr c)) (pattern cs))"

text \<open>
  \<open>int(s)\<close> on the text of a group: leading blanks are skipped (the group \<open>d\<close> may
  start with one), the rest is read as decimal digits.
\<close>

definition digit_val :: "char \<Rightarrow> int" where
  "digit_val c = int (of_char c) - 48"

definition py_int :: "string \<Rightarrow> int" where
  "py_int s = foldl (\<lambda>a c. 10 * a + digit_val c) 0 (dropWhile (\<lambda>c. c = CHR '' '') s)"

definition group :: "groups \<Rightarrow> string \<Rightarrow> string" where
  "group found_dict key = (case map_of found_dict key of None \<Rightarrow> [] | Some v \<Rightarrow> v)"

text \<open>
  \<open>strptime(data_string, format)\<close>: ValueError when the format has a bad directive, when
  the expression does not match, when the match does not use up the input
  (\<open>unconverted data remains\<close>), and when the fields are no date of the calendar (the day
  of the year is computed through \<open>datetime.date\<close>).
\<close>

definition strptime :: "string \<Rightarrow> string \<Rightarrow> exn + struct_time" where
  "strptime data_string format =
     (case pattern format of
        None \<Rightarrow> Inl ValueError
      | Some format_regex \<Rightarrow>
          (case rmatch format_regex data_string [] of
             [] \<Rightarrow> Inl ValueError
           | (rest, found_dict) # _ \<Rightarrow>
               if rest \<noteq> [] then Inl ValueError
               else
                 let year = py_int (group found_dict ''Y'');
                     month = py_int (group found_dict ''m'');
                     day = py_int (group found_dict ''d'');
                     hour = py_int (group found_dict ''H'');
                     minute = py_int (group found_dict ''M'');
                     second = py_int (group found_dict ''S'')
                 in (case check_date_fields year month day of
                       Inl e \<Rightarrow> Inl e
                     | Inr _ \<Rightarrow>
                         Inr \<lparr>tm_year = year, tm_mon = month, tm_mday = day,
                              tm_hour = hour, tm_min = minute, tm_sec = second\<rparr>)))"

subsection \<open>The module nonce.py\<close>

definition NONCE_CHARS :: string where
  "NONCE_CHARS = ''abcdefghijklmnopqrstuvwxyzABCDEFGHIJKLMNOPQRSTUVWXYZ0123456789''"

definition SKEW :: int where
  "SKEW = 60 * 60 * 5"

definition time_fmt :: string where
  "time_fmt = ''%Y-%m-%dT%H:%M:%SZ''"

definition time_str_len :: nat where
  "time_str_len = length ''0000-00-00T00:00:00Z''"

text \<open>
  \<open>split\<close>: the text argument passes through \<open>string_to_text\<close> unchanged.
\<close>

definition split :: "string \<Rightarrow> exn + (int \<times> string)" where
  "split nonce_string =
     (let timestamp_str = take time_str_len nonce_string
      in case strptime timestamp_str time_fmt of
           Inl e \<Rightarrow> Inl e
         | Inr tm \<Rightarrow>
             (case timegm tm of
                Inl e \<Rightarrow> Inl e
              | Inr timestamp \<Rightarrow>
                  if timestamp < 0 then Inl ValueError
                  else Inr (timestamp, drop time_str_len nonce_string)))"

text \<open>
  \<open>checkTimestamp\<close>: \<open>now = None\<close> reads the clock, which is the parameter \<open>clock\<close>.
  The \<open>except ValueError\<close> clause catches exactly that exception; any other would pass
  to the caller.
\<close>

definition checkTimestamp :: "int \<Rightarrow> string \<Rightarrow> int \<Rightarrow> int option \<Rightarrow> exn + bool" where
  "checkTimestamp clock nonce_string allowed_skew now =
     (case split nonce_string of
        Inl ValueError \<Rightarrow> Inr False
      | Inr (stamp, _) \<Rightarrow>
          let now = (case now of None \<Rightarrow> clock | Some n \<Rightarrow> n);
              past = now - allowed_skew;
              future = now + allowed_skew
          in Inr (past \<le> stamp \<and> stamp \<le> future))"

text \<open>
  \<open>make_nonce_salt\<close>: \<open>draw i\<close> is the \<open>i\<close>-th number the system's random source
  yields; \<open>choice\<close> picks the character at that index of \<open>NONCE_CHARS\<close>.
\<close>

definition make_nonce_salt :: "(nat \<Rightarrow> nat) \<Rightarrow> nat \<Rightarrow> string" where
  "make_nonce_salt draw len =
     map (\<lambda>i. NONCE_CHARS ! (draw i mod length NONCE_CHARS)) [0..<len]"

definition mkNonce :: "int \<Rightarrow> (nat \<Rightarrow> nat) \<Rightarrow> int option \<Rightarrow> string" where
  "mkNonce clock draw when =
     (let t = (case when of None \<Rightarrow> gmtime clock | Some w \<Rightarrow> gmtime w);
          time_str = strftime time_fmt t
      in time_str @ make_nonce_salt draw 6)"

subsection \<open>Notions used to state the properties\<close>

text \<open>A day of the calendar, as \<open>datetime.date\<close> checks it (the year apart).\<close>

definition valid_date :: "int \<Rightarrow> int \<Rightarrow> int \<Rightarrow> bool" where
  "valid_date y m d = (1 \<le> m \<and> m \<le> 12 \<and> 1 \<le> d \<and> d \<le> days_in_month y m)"

text \<open>
  The first second after the year 9999: below it, and from 0 on, the year of a time has
  four digits.
\<close>

definition MAX_TIME :: int where
  "MAX_TIME = 253402300800"

text \<open>The seconds since the epoch of a broken-down time, in closed form.\<close>

definition unix_time :: "struct_time \<Rightarrow> int" where
  "unix_time t =
     (ymd2ord (tm_year t) (tm_mon t) (tm_mday t) - EPOCH_ORD) * 86400
       + tm_hour t * 3600 + tm_min t * 60 + tm_sec t"

text \<open>The twenty characters made of fourteen decimal digits and the six separators.\<close>

definition time_str14 :: "nat \<Rightarrow> nat \<Rightarrow> nat \<Rightarrow> nat \<Rightarrow> nat \<Rightarrow> nat \<Rightarrow> nat \<Rightarrow> nat \<Rightarrow> nat \<Rightarrow> nat
     \<Rightarrow> nat \<Rightarrow> nat \<Rightarrow> nat \<Rightarrow> nat \<Rightarrow> string" where
  "time_str14 y3 y2 y1 y0 m1 m0 d1 d0 H1 H0 M1 M0 S1 S0 =
     [digit_char y3, digit_char y2, digit_char y1, digit_char y0, CHR ''-'',
      digit_char m1, digit_char m0, CHR ''-'', digit_char d1, digit_char d0, CHR ''T'',
      digit_char H1, digit_char H0, CHR '':'', digit_char M1, digit_char M0, CHR '':'',
      digit_char S1, digit_char S0, CHR ''Z'']"

text \<open>
  The layout of a nonce's timestamp in the words of the specification:
  \<open>YYYY-MM-DDTHH:MM:SSZ\<close>, of fixed width 20. \<open>fields_of\<close> reads the six numbers at
  their fixed positions.
\<close>

definition fixed_width_format :: "string \<Rightarrow> bool" where
  "fixed_width_format s =
     (case s of
        [y3, y2, y1, y0, s1, m1, m0, s2, d1, d0, s3, H1, H0, s4, M1, M0, s5, S1, S0, s6] \<Rightarrow>
          is_digit y3 \<and> is_digit y2 \<and> is_digit y1 \<and> is_digit y0 \<and> s1 = CHR ''-'' \<and>
          is_digit m1 \<and> is_digit m0 \<and> s2 = CHR ''-'' \<and>
          is_digit d1 \<and> is_digit d0 \<and> s3 = CHR ''T'' \<and>
          is_digit H1 \<and> is_digit H0 \<and> s4 = CHR '':'' \<and>
          is_digit M1 \<and> is_digit M0 \<and> s5 = CHR '':'' \<and>
          is_digit S1 \<and> is_digit S0 \<and> s6 = CHR ''Z''
      | _ \<Rightarrow> False)"

definition fields_of :: "string \<Rightarrow> struct_time" where
  "fields_of w =
     \<lparr>tm_year = py_int (take 4 w), tm_mon = py_int (take 2 (drop 5 w)),
      tm_mday = py_int (take 2 (drop 8 w)), tm_hour = py_int (take 2 (drop 11 w)),
      tm_min = py_int (take 2 (drop 14 w)), tm_sec = py_int (take 2 (drop 17 w))\<rparr>"

subsection \<open>The calendar: the date of a day number and back\<close>

lemma dby_decomp:
  assumes "0 \<le> b" "b \<le> 3" "0 \<le> c" "c \<le> 24" "0 \<le> e" "e \<le> 3"
  shows "days_before_year (400 * a + 100 * b + 4 * c + e + 1) = 146097 * a + 36524 * b + 1461 * c + 365 * e"
proof -
  define y where "y = 400 * a + 100 * b + 4 * c + e"
  have d4: "y div 4 = 100 * a + 25 * b + c"
    unfolding y_def using assms by linarith
  have d100: "y div 100 = 4 * a + b"
    unfolding y_def using assms by linarith
  have d400: "y div 400 = a"
    unfolding y_def using assms by linarith
  have "days_before_year (y + 1) = y * 365 + y div 4 - y div 100 + y div 400"
    by (simp add: days_before_year_def)
  also have "\<dots> = 146097 * a + 36524 * b + 1461 * c + 365 * e"
    unfolding d4 d100 d400 unfolding y_def by simp
  finally show ?thesis unfolding y_def .
qed

lemma mod_zero_iff_top:
  fixes r k q :: int
  assumes "1 \<le> r" "r \<le> k"
  shows "(k * q + r) mod k = 0 \<longleftrightarrow> r = k"
proof (cases "r = k")
  case True
  then show ?thesis by simp
next
  case False
  with assms have "r mod k = r" by (intro mod_pos_pos_trivial) simp_all
  moreover have "(k * q + r) mod k = r mod k" by (rule mod_mult_self4)
  ultimately show ?thesis using assms False by simp
qed

lemma leap_decomp:
  assumes "0 \<le> b" "b \<le> 3" "0 \<le> c" "c \<le> 24" "0 \<le> e" "e \<le> 3"
  shows "is_leap (400 * a + 100 * b + 4 * c + e + 1) = (e = 3 \<and> (c \<noteq> 24 \<or> b = 3))"
proof -
  define y where "y = 400 * a + 100 * b + 4 * c + e + 1"
  have y4: "y = 4 * (100 * a + 25 * b + c) + (e + 1)"
    and y100: "y = 100 * (4 * a + b) + (4 * c + e + 1)"
    and y400: "y = 400 * a + (100 * b + 4 * c + e + 1)"
    unfolding y_def by simp_all
  have m4: "y mod 4 = 0 \<longleftrightarrow> e + 1 = 4"
    unfolding y4 using assms by (intro mod_zero_iff_top) simp_all
  have m100: "y mod 100 = 0 \<longleftrightarrow> 4 * c + e + 1 = 100"
    unfolding y100 using assms by (intro mod_zero_iff_top) simp_all
  have m400: "y mod 400 = 0 \<longleftrightarrow> 100 * b + 4 * c + e + 1 = 400"
    unfolding y400 using assms by (intro mod_zero_iff_top) simp_all
  have "is_leap y = (e = 3 \<and> (c \<noteq> 24 \<or> b = 3))"
    unfolding is_leap_def m4 m100 m400 using assms by auto
  then show ?thesis unfolding y_def .
qed

lemma int_1_to_12:
  fixes m :: int
  assumes "1 \<le> m" "m \<le> 12"
  shows "m \<in> {1, 2, 3, 4, 5, 6, 7, 8, 9, 10, 11, 12}"
proof -
  have l: "[1..12] = [1, 2, 3, 4, 5, 6, 7, 8, 9, 10, 11, 12 :: int]" by code_simp
  from assms have "m \<in> set [1..12]" by simp
  then show ?thesis unfolding l by simp
qed

lemma month_calc:
  fixes r :: int and L :: bool
  assumes "0 \<le> r" "r < 365"
  defines "m0 \<equiv> (r + 50) div 32"
  defines "p0 \<equiv> DAYS_BEFORE_MONTH ! nat m0 + (if m0 > 2 \<and> L then 1 else 0)"
  defines "mp \<equiv> (if p0 > r
                   then (m0 - 1,
                         p0 - (DAYS_IN_MONTH ! nat (m0 - 1)
                                       + (if m0 - 1 = 2 \<and> L then 1 else 0)))
                   else (m0, p0))"
  shows "1 \<le> fst mp \<and> fst mp \<le> 12 \<and>
         snd mp = DAYS_BEFORE_MONTH ! nat (fst mp) + (if fst mp > 2 \<and> L then 1 else 0) \<and>
         0 \<le> r - snd mp \<and>
         r - snd mp < (if fst mp = 2 \<and> L then 29 else DAYS_IN_MONTH ! nat (fst mp))"
proof -
  have "1 \<le> m0" "m0 \<le> 12" using assms(1,2) unfolding m0_def by linarith+
  then have "m0 \<in> {1, 2, 3, 4, 5, 6, 7, 8, 9, 10, 11, 12}" by (rule int_1_to_12)
  moreover have "32 * m0 - 50 \<le> r" "r < 32 * m0 - 18" unfolding m0_def by linarith+
  ultimately show ?thesis
    using assms(1,2)
    unfolding mp_def p0_def DAYS_BEFORE_MONTH_def DAYS_IN_MONTH_def
    by (elim insertE emptyE) (simp_all)
qed

lemma ord2ymd_roundtrip:
  "case ord2ymd n of (y, m, d) \<Rightarrow> valid_date y m d \<and> ymd2ord y m d = n"
proof -
  define n0 where "n0 = n - 1"
  define a where "a = n0 div 146097"
  define r1 where "r1 = n0 mod 146097"
  define b where "b = r1 div 36524"
  define r2 where "r2 = r1 mod 36524"
  define c where "c = r2 div 1461"
  define r3 where "r3 = r2 mod 1461"
  define e where "e = r3 div 365"
  define r4 where "r4 = r3 mod 365"
  have n0: "n0 = 146097 * a + r1" and r1: "0 \<le> r1" "r1 < 146097"
    unfolding a_def r1_def by simp_all
  have r1': "r1 = 36524 * b + r2" and r2: "0 \<le> r2" "r2 < 36524"
    unfolding b_def r2_def by simp_all
  have r2': "r2 = 1461 * c + r3" and r3: "0 \<le> r3" "r3 < 1461"
    unfolding c_def r3_def by simp_all
  have r3': "r3 = 365 * e + r4" and r4: "0 \<le> r4" "r4 < 365"
    unfolding e_def r4_def by simp_all
  have b: "0 \<le> b" "b \<le> 4" using r1 r2 r1' by linarith+
  have c: "0 \<le> c" "c \<le> 24" using r2 r3 r2' by linarith+
  have e: "0 \<le> e" "e \<le> 4" using r3 r4 r3' by linarith+
  have n: "n = 146097 * a + 36524 * b + 1461 * c + 365 * e + r4 + 1"
    using n0 r1' r2' r3' n0_def by linarith
  have unf: "ord2ymd n =
     (let year = a * 400 + 1 + b * 100 + c * 4 + e
      in if e = 4 \<or> b = 4 then (year - 1, 12, 31)
         else
           let leapyear = (e = 3 \<and> (c \<noteq> 24 \<or> b = 3));
               month = (r4 + 50) div 32;
               preceding = DAYS_BEFORE_MONTH ! nat month + (if month > 2 \<and> leapyear then 1 else 0);
               mp =
                  (if preceding > r4
                   then (month - 1,
                         preceding - (DAYS_IN_MONTH ! nat (month - 1)
                                       + (if month - 1 = 2 \<and> leapyear then 1 else 0)))
                   else (month, preceding))
           in (year, fst mp, r4 - snd mp + 1))"
    unfolding ord2ymd_def DI400Y_def DI100Y_def DI4Y_def Let_def
    unfolding n0_def[symmetric]
    unfolding a_def[symmetric] r1_def[symmetric]
    unfolding b_def[symmetric] r2_def[symmetric]
    unfolding c_def[symmetric] r3_def[symmetric]
    unfolding e_def[symmetric] r4_def[symmetric]
    by (simp only: case_prod_beta fst_conv snd_conv)
  show ?thesis
  proof (cases "b = 4")
    case True
    then have z: "c = 0" "e = 0" "r4 = 0" using r1 r1' r2 r2' r3 r3' r4 c e by linarith+
    have "days_before_year (400 * a + 100 * 3 + 4 * 24 + 3 + 1) = 146097 * a + 36524 * 3 + 1461 * 24 + 365 * 3"
      by (rule dby_decomp) simp_all
    then have "days_before_year (400 * (a + 1)) = 146097 * a + 145731"
      by (simp add: algebra_simps)
    moreover have "is_leap (400 * a + 100 * 3 + 4 * 24 + 3 + 1)"
      by (subst leap_decomp) simp_all
    then have "is_leap (400 * (a + 1))" by (simp add: algebra_simps)
    moreover have "ord2ymd n = (400 * (a + 1), 12, 31)"
      unfolding unf Let_def using True z by simp
    ultimately show ?thesis
      using True z n
      by (simp add: valid_date_def ymd2ord_def days_in_month_def days_before_month_def
            DAYS_IN_MONTH_def DAYS_BEFORE_MONTH_def)
  next
    case bn4: False
    then have b3: "b \<le> 3" using b by linarith
    show ?thesis
    proof (cases "e = 4")
      case True
      then have z: "r4 = 0" "c \<le> 23" using r2 r2' r3 r3' r4 c e by linarith+
      have "days_before_year (400 * a + 100 * b + 4 * c + 3 + 1) = 146097 * a + 36524 * b + 1461 * c + 365 * 3"
        using dby_decomp[of b c 3 a] b b3 c by simp
      moreover have "is_leap (400 * a + 100 * b + 4 * c + 3 + 1)"
        using leap_decomp[of b c 3 a] b b3 c z by simp
      moreover have "ord2ymd n = (400 * a + 100 * b + 4 * c + 3 + 1, 12, 31)"
        unfolding unf Let_def using True by simp
      ultimately show ?thesis
        using True z n bn4
        by (simp add: valid_date_def ymd2ord_def days_in_month_def days_before_month_def
            DAYS_IN_MONTH_def DAYS_BEFORE_MONTH_def)
    next
      case en4: False
      then have e3: "e \<le> 3" using e by linarith
      define L where "L = (e = 3 \<and> (c \<noteq> 24 \<or> b = 3))"
      define year where "year = 400 * a + 100 * b + 4 * c + e + 1"
      have dby: "days_before_year year = 146097 * a + 36524 * b + 1461 * c + 365 * e"
        unfolding year_def using dby_decomp b b3 c e e3 by blast
      have leap: "is_leap year = L"
        unfolding year_def L_def using leap_decomp b b3 c e e3 by blast
      have yeq: "a * 400 + 1 + b * 100 + c * 4 + e = year" unfolding year_def by simp
      define m0 where "m0 = (r4 + 50) div 32"
      define p0 where "p0 = DAYS_BEFORE_MONTH ! nat m0 + (if m0 > 2 \<and> L then 1 else 0)"
      define mp where "mp = (if p0 > r4
                   then (m0 - 1,
                         p0 - (DAYS_IN_MONTH ! nat (m0 - 1)
                                       + (if m0 - 1 = 2 \<and> L then 1 else 0)))
                   else (m0, p0))"
      have mc: "1 \<le> fst mp \<and> fst mp \<le> 12 \<and>
         snd mp = DAYS_BEFORE_MONTH ! nat (fst mp) + (if fst mp > 2 \<and> L then 1 else 0) \<and>
         0 \<le> r4 - snd mp \<and>
         r4 - snd mp < (if fst mp = 2 \<and> L then 29 else DAYS_IN_MONTH ! nat (fst mp))"
        unfolding mp_def p0_def m0_def by (rule month_calc[OF r4])
      have res: "ord2ymd n = (year, fst mp, r4 - snd mp + 1)"
        unfolding unf Let_def yeq L_def[symmetric] m0_def[symmetric] p0_def[symmetric] mp_def[symmetric]
        using bn4 en4 by simp
      show ?thesis
        unfolding res using mc n dby leap
        by (simp add: valid_date_def ymd2ord_def days_in_month_def days_before_month_def)
    qed
  qed
qed

subsection \<open>Years of the window, and \<open>timegm\<close> after \<open>gmtime\<close>\<close>

lemma div_step:
  fixes y k :: int
  assumes "0 < k"
  shows "y div k = (y - 1) div k + (if y mod k = 0 then 1 else 0)"
proof (cases "y mod k = 0")
  case True
  have "y = k * (y div k) + y mod k" by simp
  with True have "y - 1 = k * (y div k - 1) + (k - 1)" by (simp add: algebra_simps)
  then have "(y - 1) div k = y div k - 1"
    using assms by (intro int_div_pos_eq[where r = "k - 1"]) simp_all
  with True show ?thesis by simp
next
  case False
  have r: "0 \<le> y mod k" "y mod k < k" using assms by simp_all
  have "y = k * (y div k) + y mod k" by simp
  then have "y - 1 = k * (y div k) + (y mod k - 1)" by linarith
  then have "(y - 1) div k = y div k"
    using assms r False by (intro int_div_pos_eq[where r = "y mod k - 1"]) simp_all
  with False show ?thesis by simp
qed

lemma dby_succ:
  "days_before_year (y + 1) = days_before_year y + (if is_leap y then 366 else 365)"
proof -
  define a4 where "a4 = (y - 1) div 4"
  define a100 where "a100 = (y - 1) div 100"
  define a400 where "a400 = (y - 1) div 400"
  define b4 where "b4 = y div 4"
  define b100 where "b100 = y div 100"
  define b400 where "b400 = y div 400"
  define L4 where "L4 = (y mod 4 = 0)"
  define L100 where "L100 = (y mod 100 = 0)"
  define L400 where "L400 = (y mod 400 = 0)"
  have d4: "b4 = a4 + (if L4 then 1 else 0)"
    unfolding b4_def a4_def L4_def by (rule div_step) simp
  have d100: "b100 = a100 + (if L100 then 1 else 0)"
    unfolding b100_def a100_def L100_def by (rule div_step) simp
  have d400: "b400 = a400 + (if L400 then 1 else 0)"
    unfolding b400_def a400_def L400_def by (rule div_step) simp
  have i1: "L100 \<Longrightarrow> L4" unfolding L100_def L4_def using mod_mod_cancel[of 4 100 y] by simp
  have i2: "L400 \<Longrightarrow> L100" unfolding L400_def L100_def using mod_mod_cancel[of 100 400 y] by simp
  have e1: "days_before_year (y + 1) = y * 365 + b4 - b100 + b400"
    unfolding b4_def b100_def b400_def by (simp add: days_before_year_def)
  have e0: "days_before_year y = (y - 1) * 365 + a4 - a100 + a400"
    unfolding a4_def a100_def a400_def by (simp add: days_before_year_def Let_def)
  have l: "is_leap y = (L4 \<and> (\<not> L100 \<or> L400))"
    unfolding is_leap_def L4_def L100_def L400_def by simp
  show ?thesis
    unfolding e1 e0 l d4 d100 d400 using i1 i2
    by (cases L4; cases L100; cases L400; simp add: algebra_simps)
qed

lemma dby_mono: "y \<le> y' \<Longrightarrow> days_before_year y \<le> days_before_year y'"
proof (induction y' rule: int_ge_induct)
  case base
  show ?case by simp
next
  case (step i)
  then show ?case using dby_succ[of i] by (simp split: if_splits)
qed

lemma ymd2ord_bounds:
  assumes "valid_date y m d"
  shows "days_before_year y + 1 \<le> ymd2ord y m d" and "ymd2ord y m d \<le> days_before_year (y + 1)"
proof -
  from assms have "m \<in> {1, 2, 3, 4, 5, 6, 7, 8, 9, 10, 11, 12}"
    unfolding valid_date_def by (intro int_1_to_12) simp_all
  then have "0 \<le> days_before_month y m \<and>
             days_before_month y m + days_in_month y m \<le> (if is_leap y then 366 else 365)"
    by (elim insertE emptyE)
       (simp_all add: days_before_month_def days_in_month_def DAYS_BEFORE_MONTH_def DAYS_IN_MONTH_def)
  with assms show "days_before_year y + 1 \<le> ymd2ord y m d"
    and "ymd2ord y m d \<le> days_before_year (y + 1)"
    unfolding dby_succ ymd2ord_def valid_date_def by (simp_all split: if_splits)
qed

lemma dby_1970: "days_before_year 1970 = 719162"
  by (simp add: days_before_year_def)

lemma dby_10000: "days_before_year 10000 = 3652059"
  by (simp add: days_before_year_def)

lemma year_range:
  assumes v: "valid_date y m d" and lo: "719163 \<le> ymd2ord y m d" and hi: "ymd2ord y m d \<le> 3652059"
  shows "1970 \<le> y" and "y \<le> 9999"
proof -
  show "1970 \<le> y"
  proof (rule ccontr)
    assume "\<not> 1970 \<le> y"
    then have "y + 1 \<le> 1970" by simp
    then have "days_before_year (y + 1) \<le> 719162" using dby_mono dby_1970 by metis
    with ymd2ord_bounds(2)[OF v] lo show False by linarith
  qed
  show "y \<le> 9999"
  proof (rule ccontr)
    assume "\<not> y \<le> 9999"
    then have "10000 \<le> y" by simp
    then have "3652059 \<le> days_before_year y" using dby_mono dby_10000 by metis
    with ymd2ord_bounds(1)[OF v] hi show False by linarith
  qed
qed

lemma gmtime_fields:
  assumes "0 \<le> t" "t < MAX_TIME"
  shows "1970 \<le> tm_year (gmtime t)" "tm_year (gmtime t) \<le> 9999"
    "valid_date (tm_year (gmtime t)) (tm_mon (gmtime t)) (tm_mday (gmtime t))"
    "ymd2ord (tm_year (gmtime t)) (tm_mon (gmtime t)) (tm_mday (gmtime t)) = t div 86400 + EPOCH_ORD"
    "tm_hour (gmtime t) = t mod 86400 div 3600"
    "tm_min (gmtime t) = t mod 86400 mod 3600 div 60"
    "tm_sec (gmtime t) = t mod 86400 mod 60"
proof -
  obtain y m d where o: "ord2ymd (t div 86400 + EPOCH_ORD) = (y, m, d)"
    by (cases "ord2ymd (t div 86400 + EPOCH_ORD)") auto
  have g: "gmtime t = \<lparr>tm_year = y, tm_mon = m, tm_mday = d,
          tm_hour = t mod 86400 div 3600, tm_min = t mod 86400 mod 3600 div 60, tm_sec = t mod 86400 mod 60\<rparr>"
    unfolding gmtime_def Let_def o by simp
  from ord2ymd_roundtrip[of "t div 86400 + EPOCH_ORD"] o
  have v: "valid_date y m d" and r: "ymd2ord y m d = t div 86400 + EPOCH_ORD" by simp_all
  have "0 \<le> t div 86400"
    using assms(1) by (simp add: pos_imp_zdiv_nonneg_iff)
  moreover have "t div 86400 \<le> 2932896"
    using zdiv_mono1[of t 253402300799 86400] assms(2) unfolding MAX_TIME_def by simp
  ultimately have "0 \<le> t div 86400" "t div 86400 \<le> 2932896" .
  then have "719163 \<le> ymd2ord y m d" "ymd2ord y m d \<le> 3652059"
    unfolding r EPOCH_ORD_def by linarith+
  from year_range[OF v this] have "1970 \<le> y" "y \<le> 9999" .
  then show "1970 \<le> tm_year (gmtime t)" "tm_year (gmtime t) \<le> 9999"
    "valid_date (tm_year (gmtime t)) (tm_mon (gmtime t)) (tm_mday (gmtime t))"
    "ymd2ord (tm_year (gmtime t)) (tm_mon (gmtime t)) (tm_mday (gmtime t)) = t div 86400 + EPOCH_ORD"
    "tm_hour (gmtime t) = t mod 86400 div 3600"
    "tm_min (gmtime t) = t mod 86400 mod 3600 div 60"
    "tm_sec (gmtime t) = t mod 86400 mod 60"
    using v r unfolding g by simp_all
qed

lemma timegm_gmtime:
  assumes "0 \<le> t" "t < MAX_TIME"
  shows "timegm (gmtime t) = Inr t"
proof -
  note f = gmtime_fields[OF assms]
  let ?g = "gmtime t"
  from f(3) have m: "1 \<le> tm_mon ?g" "tm_mon ?g \<le> 12" and dd: "1 \<le> days_in_month (tm_year ?g) (tm_mon ?g)"
    unfolding valid_date_def by linarith+
  have c: "check_date_fields (tm_year ?g) (tm_mon ?g) 1 = Inr (tm_year ?g, tm_mon ?g, 1)"
    using f(1,2) m dd by (simp add: check_date_fields_def MINYEAR_def MAXYEAR_def)
  have o: "date_toordinal (tm_year ?g) (tm_mon ?g) 1 = Inr (ymd2ord (tm_year ?g) (tm_mon ?g) 1)"
    unfolding date_toordinal_def c by simp
  have "ymd2ord (tm_year ?g) (tm_mon ?g) 1 - EPOCH_ORD + tm_mday ?g - 1
          = ymd2ord (tm_year ?g) (tm_mon ?g) (tm_mday ?g) - EPOCH_ORD"
    by (simp add: ymd2ord_def)
  also have "\<dots> = t div 86400" unfolding f(4) by simp
  finally have days: "ymd2ord (tm_year ?g) (tm_mon ?g) 1 - EPOCH_ORD + tm_mday ?g - 1 = t div 86400" .
  define r where "r = t mod 86400"
  have t: "t = 86400 * (t div 86400) + r" unfolding r_def by (rule mult_div_mod_eq[symmetric])
  have r1: "r = 3600 * (r div 3600) + r mod 3600" by (rule mult_div_mod_eq[symmetric])
  have r2: "r mod 3600 = 60 * (r mod 3600 div 60) + r mod 3600 mod 60" by (rule mult_div_mod_eq[symmetric])
  have r3: "r mod 3600 mod 60 = r mod 60" by (rule mod_mod_cancel) simp
  have key: "((t div 86400 * 24 + r div 3600) * 60 + r mod 3600 div 60) * 60 + r mod 60 = t"
  proof -
    define D where "D = t div 86400"
    define h where "h = r div 3600"
    define r' where "r' = r mod 3600"
    define mi where "mi = r' div 60"
    define s where "s = r mod 60"
    have "t = 86400 * D + r" "r = 3600 * h + r'" "r' = 60 * mi + s"
      unfolding D_def h_def r'_def mi_def s_def r3[symmetric] by (rule t r1 r2)+
    then have "((D * 24 + h) * 60 + mi) * 60 + s = t" by simp
    then show ?thesis unfolding D_def h_def r'_def mi_def s_def .
  qed
  show ?thesis
    unfolding timegm_def o sum.case Let_def days f(5,6,7) r_def[symmetric]
    by (simp only: key)
qed

subsection \<open>Matching the fields of the format\<close>

lemma of_char_digit_char [simp]: "n < 10 \<Longrightarrow> (of_char (digit_char n) :: nat) = 48 + n"
  by (simp add: digit_char_def)

lemma is_digit_digit_char [simp]: "n < 10 \<Longrightarrow> is_digit (digit_char n)"
  by (simp add: is_digit_def)

lemma in_range_digit_char:
  "n < 10 \<Longrightarrow> in_range a b (digit_char n) = ((of_char a :: nat) \<le> 48 + n \<and> 48 + n \<le> (of_char b :: nat))"
  by (simp add: in_range_def)

lemma eq_ignorecase_digit_char:
  "n < 10 \<Longrightarrow> eq_ignorecase c (digit_char n) = (lower_code (of_char c) = 48 + n)"
  by (simp add: eq_ignorecase_def lower_code_def)

lemma digit_char_not_blank [simp]: "n < 10 \<Longrightarrow> digit_char n \<noteq> CHR '' ''"
proof
  assume "n < 10" and "digit_char n = CHR '' ''"
  then have "(of_char (digit_char n) :: nat) = of_char (CHR '' '')" by simp
  with \<open>n < 10\<close> show False by simp
qed

lemma digit_val_digit_char [simp]: "n < 10 \<Longrightarrow> digit_val (digit_char n) = int n"
  by (simp add: digit_val_def)

lemma py_int_2: "a < 10 \<Longrightarrow> b < 10 \<Longrightarrow> py_int [digit_char a, digit_char b] = 10 * int a + int b"
  by (simp add: py_int_def)

lemma py_int_4:
  "a < 10 \<Longrightarrow> b < 10 \<Longrightarrow> c < 10 \<Longrightarrow> d < 10 \<Longrightarrow>
   py_int [digit_char a, digit_char b, digit_char c, digit_char d]
     = 1000 * int a + 100 * int b + 10 * int c + int d"
  by (simp add: py_int_def)

lemma rmatch_Y:
  assumes "a < 10" "b < 10" "c < 10" "d < 10"
  shows "rmatch (Cat rx_Y R) (digit_char a # digit_char b # digit_char c # digit_char d # rest) g
         = rmatch R rest ((''Y'', [digit_char a, digit_char b, digit_char c, digit_char d]) # g)"
  using assms by (simp add: rx_Y_def)

lemma rmatch_lit:
  "rmatch (Cat (Chr c) R) (c # rest) g = rmatch R rest g"
  by (simp add: eq_ignorecase_def)

lemma rmatch_m:
  assumes "a < 10" "b < 10" "1 \<le> 10 * a + b" "10 * a + b \<le> 12"
  shows "rmatch (Cat rx_m (Cat (Chr CHR ''-'') R)) (digit_char a # digit_char b # CHR ''-'' # rest) g
         = rmatch R rest ((''m'', [digit_char a, digit_char b]) # g)"
  using assms
  by (auto simp add: rx_m_def in_range_digit_char eq_ignorecase_digit_char lower_code_def eq_ignorecase_def)

lemma rmatch_d:
  assumes "a < 10" "b < 10" "1 \<le> 10 * a + b" "10 * a + b \<le> 31"
  shows "rmatch (Cat rx_d (Cat (Chr CHR ''T'') R)) (digit_char a # digit_char b # CHR ''T'' # rest) g
         = rmatch R rest ((''d'', [digit_char a, digit_char b]) # g)"
  using assms
  by (auto simp add: rx_d_def in_range_digit_char eq_ignorecase_digit_char lower_code_def eq_ignorecase_def)

lemma rmatch_H:
  assumes "a < 10" "b < 10" "10 * a + b \<le> 23"
  shows "rmatch (Cat rx_H (Cat (Chr CHR '':'') R)) (digit_char a # digit_char b # CHR '':'' # rest) g
         = rmatch R rest ((''H'', [digit_char a, digit_char b]) # g)"
  using assms
  by (auto simp add: rx_H_def in_range_digit_char eq_ignorecase_digit_char lower_code_def eq_ignorecase_def)

lemma rmatch_M:
  assumes "a < 10" "b < 10" "10 * a + b \<le> 59"
  shows "rmatch (Cat rx_M (Cat (Chr CHR '':'') R)) (digit_char a # digit_char b # CHR '':'' # rest) g
         = rmatch R rest ((''M'', [digit_char a, digit_char b]) # g)"
  using assms
  by (auto simp add: rx_M_def in_range_digit_char eq_ignorecase_digit_char lower_code_def eq_ignorecase_def)

lemma rmatch_S:
  assumes "a < 10" "b < 10" "10 * a + b \<le> 61"
  shows "rmatch (Cat rx_S (Cat (Chr CHR ''Z'') R)) (digit_char a # digit_char b # CHR ''Z'' # rest) g
         = rmatch R rest ((''S'', [digit_char a, digit_char b]) # g)"
  using assms
  by (auto simp add: rx_S_def in_range_digit_char eq_ignorecase_digit_char lower_code_def eq_ignorecase_def)

lemma pattern_time_fmt:
  "pattern time_fmt =
     Some (Cat rx_Y (Cat (Chr CHR ''-'') (Cat rx_m (Cat (Chr CHR ''-'') (Cat rx_d (Cat (Chr CHR ''T'')
          (Cat rx_H (Cat (Chr CHR '':'') (Cat rx_M (Cat (Chr CHR '':'') (Cat rx_S (Cat (Chr CHR ''Z'') Emp))))))))))))"
  by (simp add: time_fmt_def directives_def)

subsection \<open>\<open>strptime\<close> on fixed-width timestamps\<close>

lemma strptime_fixed_width:
  assumes dig: "y3 < 10" "y2 < 10" "y1 < 10" "y0 < 10" "m1 < 10" "m0 < 10" "d1 < 10" "d0 < 10"
      "H1 < 10" "H0 < 10" "M1 < 10" "M0 < 10" "S1 < 10" "S0 < 10"
    and rng: "10 * H1 + H0 \<le> 23" "10 * M1 + M0 \<le> 59" "10 * S1 + S0 \<le> 61"
    and date: "check_date_fields (1000 * int y3 + 100 * int y2 + 10 * int y1 + int y0)
                 (10 * int m1 + int m0) (10 * int d1 + int d0) = Inr ymd"
  shows "strptime (time_str14 y3 y2 y1 y0 m1 m0 d1 d0 H1 H0 M1 M0 S1 S0) time_fmt =
         Inr \<lparr>tm_year = 1000 * int y3 + 100 * int y2 + 10 * int y1 + int y0,
              tm_mon = 10 * int m1 + int m0, tm_mday = 10 * int d1 + int d0,
              tm_hour = 10 * int H1 + int H0, tm_min = 10 * int M1 + int M0,
              tm_sec = 10 * int S1 + int S0\<rparr>"
proof -
  from date have m: "1 \<le> 10 * int m1 + int m0" "10 * int m1 + int m0 \<le> 12"
    and d1: "1 \<le> 10 * int d1 + int d0"
    and d2: "10 * int d1 + int d0 \<le> days_in_month (1000 * int y3 + 100 * int y2 + 10 * int y1 + int y0) (10 * int m1 + int m0)"
    by (auto simp: check_date_fields_def split: if_splits)
  from m have m': "1 \<le> 10 * m1 + m0" "10 * m1 + m0 \<le> 12" by linarith+
  have "days_in_month (1000 * int y3 + 100 * int y2 + 10 * int y1 + int y0) (10 * int m1 + int m0) \<le> 31"
  proof -
    have "10 * int m1 + int m0 \<in> {1, 2, 3, 4, 5, 6, 7, 8, 9, 10, 11, 12}" using m by (rule int_1_to_12)
    then show ?thesis
      by (elim insertE emptyE) (simp_all add: days_in_month_def DAYS_IN_MONTH_def)
  qed
  with d1 d2 have d': "1 \<le> 10 * d1 + d0" "10 * d1 + d0 \<le> 31" by linarith+
  have match: "rmatch (Cat rx_Y (Cat (Chr CHR ''-'') (Cat rx_m (Cat (Chr CHR ''-'') (Cat rx_d (Cat (Chr CHR ''T'')
          (Cat rx_H (Cat (Chr CHR '':'') (Cat rx_M (Cat (Chr CHR '':'') (Cat rx_S (Cat (Chr CHR ''Z'') Emp))))))))))))
        (time_str14 y3 y2 y1 y0 m1 m0 d1 d0 H1 H0 M1 M0 S1 S0) []
      = [([], [(''S'', [digit_char S1, digit_char S0]), (''M'', [digit_char M1, digit_char M0]),
               (''H'', [digit_char H1, digit_char H0]), (''d'', [digit_char d1, digit_char d0]),
               (''m'', [digit_char m1, digit_char m0]),
               (''Y'', [digit_char y3, digit_char y2, digit_char y1, digit_char y0])])]"
    unfolding time_str14_def
    by (simp only: rmatch_Y[OF dig(1-4)] rmatch_lit rmatch_m[OF dig(5,6) m'] rmatch_d[OF dig(7,8) d']
          rmatch_H[OF dig(9,10) rng(1)] rmatch_M[OF dig(11,12) rng(2)] rmatch_S[OF dig(13,14) rng(3)]
          rmatch.simps(1))
  show ?thesis
    unfolding strptime_def pattern_time_fmt option.case match list.case prod.case
    using dig date
    by (simp add: group_def py_int_2 py_int_4 Let_def)
qed

subsection \<open>\<open>strftime\<close> and back\<close>

lemma digits_of_1: "n < 10 \<Longrightarrow> digits_of n = [digit_char n]"
  by (simp add: digits_of.simps)

lemma digits_of_2: "10 \<le> n \<Longrightarrow> n < 100 \<Longrightarrow> digits_of n = [digit_char (n div 10), digit_char (n mod 10)]"
  by (subst digits_of.simps) (simp add: digits_of_1)

lemma digits_of_3:
  "100 \<le> n \<Longrightarrow> n < 1000 \<Longrightarrow>
   digits_of n = [digit_char (n div 100), digit_char (n div 10 mod 10), digit_char (n mod 10)]"
  by (subst digits_of.simps) (simp add: digits_of_2 div_mult2_eq[symmetric])

lemma digits_of_4:
  "1000 \<le> n \<Longrightarrow> n < 10000 \<Longrightarrow>
   digits_of n = [digit_char (n div 1000), digit_char (n div 100 mod 10),
                  digit_char (n div 10 mod 10), digit_char (n mod 10)]"
  by (subst digits_of.simps) (simp add: digits_of_3 div_mult2_eq[symmetric])

lemma digit_char_0: "digit_char 0 = CHR ''0''"
  unfolding digit_char_def by code_simp

lemma pad2_digits:
  assumes "0 \<le> i" "i < 100"
  shows "pad2 i = [digit_char (nat i div 10), digit_char (nat i mod 10)]"
proof (cases "i < 10")
  case True
  with assms show ?thesis by (simp add: pad2_def str_int_def digits_of_1 digit_char_0)
next
  case False
  with assms show ?thesis by (simp add: pad2_def str_int_def digits_of_2)
qed

lemma str_int_year:
  assumes "1000 \<le> i" "i \<le> 9999"
  shows "str_int i = [digit_char (nat i div 1000), digit_char (nat i div 100 mod 10),
                      digit_char (nat i div 10 mod 10), digit_char (nat i mod 10)]"
  using assms by (simp add: str_int_def digits_of_4)

lemma strftime_time_fmt:
  "strftime time_fmt t =
     str_int (tm_year t) @ ''-'' @ pad2 (tm_mon t) @ ''-'' @ pad2 (tm_mday t) @ ''T'' @
     pad2 (tm_hour t) @ '':'' @ pad2 (tm_min t) @ '':'' @ pad2 (tm_sec t) @ ''Z''"
  by (simp add: time_fmt_def)

lemma strftime_fixed_width:
  assumes "1000 \<le> tm_year t" "tm_year t \<le> 9999" "0 \<le> tm_mon t" "tm_mon t < 100"
    "0 \<le> tm_mday t" "tm_mday t < 100" "0 \<le> tm_hour t" "tm_hour t < 100"
    "0 \<le> tm_min t" "tm_min t < 100" "0 \<le> tm_sec t" "tm_sec t < 100"
  shows "strftime time_fmt t =
     time_str14 (nat (tm_year t) div 1000) (nat (tm_year t) div 100 mod 10)
       (nat (tm_year t) div 10 mod 10) (nat (tm_year t) mod 10)
       (nat (tm_mon t) div 10) (nat (tm_mon t) mod 10)
       (nat (tm_mday t) div 10) (nat (tm_mday t) mod 10)
       (nat (tm_hour t) div 10) (nat (tm_hour t) mod 10)
       (nat (tm_min t) div 10) (nat (tm_min t) mod 10)
       (nat (tm_sec t) div 10) (nat (tm_sec t) mod 10)"
  using assms
  by (simp add: strftime_time_fmt time_str14_def pad2_digits str_int_year)

lemma decimal4:
  fixes x :: int
  shows "1000 * (x div 1000) + 100 * (x div 100 mod 10) + 10 * (x div 10 mod 10) + x mod 10 = x"
proof -
  have a: "x div 100 = x div 10 div 10"
    using zdiv_zmult2_eq[of 10 x 10] by simp
  have b: "x div 1000 = x div 100 div 10"
    using zdiv_zmult2_eq[of 10 x 100] by simp
  have "10 * (x div 10) + x mod 10 = x"
    and "10 * (x div 10 div 10) + x div 10 mod 10 = x div 10"
    and "10 * (x div 100 div 10) + x div 100 mod 10 = x div 100"
    by (rule mult_div_mod_eq)+
  then show ?thesis unfolding b unfolding a by linarith
qed

lemma strptime_strftime:
  assumes y: "1000 \<le> tm_year t" "tm_year t \<le> 9999"
    and date: "check_date_fields (tm_year t) (tm_mon t) (tm_mday t) = Inr ymd"
    and h: "0 \<le> tm_hour t" "tm_hour t \<le> 23"
    and mi: "0 \<le> tm_min t" "tm_min t \<le> 59"
    and s: "0 \<le> tm_sec t" "tm_sec t \<le> 61"
  shows "strptime (strftime time_fmt t) time_fmt = Inr t"
    and "length (strftime time_fmt t) = 20"
proof -
  from date have m: "1 \<le> tm_mon t" "tm_mon t \<le> 12"
    and d1: "1 \<le> tm_mday t"
    and d2: "tm_mday t \<le> days_in_month (tm_year t) (tm_mon t)"
    by (auto simp: check_date_fields_def split: if_splits)
  have "days_in_month (tm_year t) (tm_mon t) \<le> 31"
  proof -
    have "tm_mon t \<in> {1, 2, 3, 4, 5, 6, 7, 8, 9, 10, 11, 12}" using m by (rule int_1_to_12)
    then show ?thesis
      by (elim insertE emptyE) (simp_all add: days_in_month_def DAYS_IN_MONTH_def)
  qed
  with d2 have d3: "tm_mday t \<le> 31" by linarith
  have fw: "strftime time_fmt t =
     time_str14 (nat (tm_year t) div 1000) (nat (tm_year t) div 100 mod 10)
       (nat (tm_year t) div 10 mod 10) (nat (tm_year t) mod 10)
       (nat (tm_mon t) div 10) (nat (tm_mon t) mod 10)
       (nat (tm_mday t) div 10) (nat (tm_mday t) mod 10)
       (nat (tm_hour t) div 10) (nat (tm_hour t) mod 10)
       (nat (tm_min t) div 10) (nat (tm_min t) mod 10)
       (nat (tm_sec t) div 10) (nat (tm_sec t) mod 10)"
    using y m d1 d3 h mi s by (intro strftime_fixed_width) linarith+
  show "length (strftime time_fmt t) = 20"
    unfolding fw by (simp add: time_str14_def)
  have yy: "1000 * int (nat (tm_year t) div 1000) + 100 * int (nat (tm_year t) div 100 mod 10)
        + 10 * int (nat (tm_year t) div 10 mod 10) + int (nat (tm_year t) mod 10) = tm_year t"
    using y by (simp add: zdiv_int zmod_int decimal4)
  have two: "\<And>i. 0 \<le> i \<Longrightarrow> 10 * int (nat i div 10) + int (nat i mod 10) = i"
    by (simp add: zdiv_int zmod_int)
  have "strptime (strftime time_fmt t) time_fmt =
         Inr \<lparr>tm_year = tm_year t, tm_mon = tm_mon t, tm_mday = tm_mday t,
              tm_hour = tm_hour t, tm_min = tm_min t, tm_sec = tm_sec t\<rparr>"
    unfolding fw
    apply (subst strptime_fixed_width[where ymd = ymd])
    using y m d1 d3 h mi s date
    by (simp_all add: yy two) 
  then show "strptime (strftime time_fmt t) time_fmt = Inr t" by simp
qed

subsection \<open>\<open>split\<close> and \<open>checkTimestamp\<close>\<close>

lemma strptime_date:
  assumes "strptime s fmt = Inr tm"
  shows "check_date_fields (tm_year tm) (tm_mon tm) (tm_mday tm) = Inr (tm_year tm, tm_mon tm, tm_mday tm)"
  using assms unfolding strptime_def Let_def
  by (auto split: option.splits list.splits if_splits sum.splits prod.splits
        simp: check_date_fields_def)

lemma timegm_after_check:
  assumes "check_date_fields (tm_year tm) (tm_mon tm) (tm_mday tm) = Inr ymd"
  shows "timegm tm = Inr (unix_time tm)"
proof -
  from assms have y: "MINYEAR \<le> tm_year tm" "tm_year tm \<le> MAXYEAR"
    and m: "1 \<le> tm_mon tm" "tm_mon tm \<le> 12"
    and d: "1 \<le> tm_mday tm" "tm_mday tm \<le> days_in_month (tm_year tm) (tm_mon tm)"
    by (auto simp: check_date_fields_def split: if_splits)
  from d have "1 \<le> days_in_month (tm_year tm) (tm_mon tm)" by linarith
  with y m have c: "check_date_fields (tm_year tm) (tm_mon tm) 1 = Inr (tm_year tm, tm_mon tm, 1)"
    by (simp add: check_date_fields_def)
  show ?thesis
    unfolding timegm_def date_toordinal_def c unix_time_def
    by (simp add: Let_def ymd2ord_def algebra_simps)
qed

lemma split_eq:
  "split s =
     (case strptime (take time_str_len s) time_fmt of
        Inl e \<Rightarrow> Inl ValueError
      | Inr tm \<Rightarrow>
          if unix_time tm < 0 then Inl ValueError
          else Inr (unix_time tm, drop time_str_len s))"
proof (cases "strptime (take time_str_len s) time_fmt")
  case (Inl e)
  then show ?thesis by (cases e) (simp add: split_def)
next
  case (Inr tm)
  from timegm_after_check[OF strptime_date[OF Inr]] Inr
  show ?thesis by (simp add: split_def)
qed

lemma checkTimestamp_eq:
  "checkTimestamp clock s skew now =
     (case split s of
        Inl e \<Rightarrow> Inr False
      | Inr (stamp, salt) \<Rightarrow>
          Inr ((case now of None \<Rightarrow> clock | Some n \<Rightarrow> n) - skew \<le> stamp
               \<and> stamp \<le> (case now of None \<Rightarrow> clock | Some n \<Rightarrow> n) + skew))"
  unfolding checkTimestamp_def Let_def
  by (auto split: sum.splits exn.splits prod.splits)

lemma hms_ranges:
  fixes t :: int
  shows "0 \<le> t mod 86400 div 3600" "t mod 86400 div 3600 \<le> 23"
    "0 \<le> t mod 86400 mod 3600 div 60" "t mod 86400 mod 3600 div 60 \<le> 59"
    "0 \<le> t mod 86400 mod 60" "t mod 86400 mod 60 \<le> 59"
proof -
  define r where "r = t mod 86400"
  define r' where "r' = r mod 3600"
  define s where "s = r mod 60"
  have r: "0 \<le> r" "r < 86400" unfolding r_def by simp_all
  have r': "0 \<le> r'" "r' < 3600" unfolding r'_def by simp_all
  have s: "0 \<le> s" "s < 60" unfolding s_def by simp_all
  from r(2) have "r \<le> 86399" by simp
  from zdiv_mono1[OF this, of 3600] have "r div 3600 \<le> 23" by simp
  moreover have "0 \<le> r div 3600" using r(1) by (simp add: pos_imp_zdiv_nonneg_iff)
  moreover from r'(2) have "r' \<le> 3599" by simp
  from zdiv_mono1[OF this, of 60] have "r' div 60 \<le> 59" by simp
  moreover have "0 \<le> r' div 60" using r'(1) by (simp add: pos_imp_zdiv_nonneg_iff)
  moreover have "s \<le> 59" using s(2) by simp
  ultimately show "0 \<le> t mod 86400 div 3600" "t mod 86400 div 3600 \<le> 23"
    "0 \<le> t mod 86400 mod 3600 div 60" "t mod 86400 mod 3600 div 60 \<le> 59"
    "0 \<le> t mod 86400 mod 60" "t mod 86400 mod 60 \<le> 59"
    using s(1) unfolding r_def r'_def s_def by blast+
qed

lemma split_mkNonce:
  assumes "0 \<le> t" "t < MAX_TIME"
  shows "split (mkNonce clock draw (Some t)) = Inr (t, make_nonce_salt draw 6)"
proof -
  note f = gmtime_fields[OF assms]
  let ?g = "gmtime t"
  from f(3) have c: "check_date_fields (tm_year ?g) (tm_mon ?g) (tm_mday ?g)
      = Inr (tm_year ?g, tm_mon ?g, tm_mday ?g)"
    using f(1,2) by (simp add: check_date_fields_def valid_date_def MINYEAR_def MAXYEAR_def)
  have y: "1000 \<le> tm_year ?g" using f(1) by linarith
  have h: "0 \<le> tm_hour ?g" "tm_hour ?g \<le> 23"
    unfolding f(5) by (rule hms_ranges)+
  have mi: "0 \<le> tm_min ?g" "tm_min ?g \<le> 59"
    unfolding f(6) by (rule hms_ranges)+
  have s: "0 \<le> tm_sec ?g" "tm_sec ?g \<le> 61"
    unfolding f(7) using hms_ranges(5,6)[of t] by linarith+
  note r = strptime_strftime[OF y f(2) c h mi s]
  have tk: "take time_str_len (mkNonce clock draw (Some t)) = strftime time_fmt ?g"
    and dr: "drop time_str_len (mkNonce clock draw (Some t)) = make_nonce_salt draw 6"
    using r(2) by (simp_all add: mkNonce_def time_str_len_def)
  show ?thesis
    unfolding split_def Let_def tk dr r(1) using timegm_gmtime[OF assms] assms(1) by simp
qed

subsection \<open>The fixed-width layout\<close>

lemma is_digit_digit_char_ex:
  assumes "is_digit c"
  shows "\<exists>n<10. c = digit_char n \<and> digit_val c = int n"
proof -
  define n where "n = (of_char c :: nat) - 48"
  from assms have n: "n < 10" and oc: "(of_char c :: nat) = 48 + n"
    unfolding n_def is_digit_def by linarith+
  have "c = char_of (of_char c :: nat)" by simp
  then have "c = digit_char n" unfolding oc digit_char_def .
  moreover have "digit_val c = int n" unfolding digit_val_def oc by simp
  ultimately show ?thesis using n by blast
qed

lemma fixed_width_format_time_str14:
  assumes "fixed_width_format w"
  shows "\<exists>y3 y2 y1 y0 m1 m0 d1 d0 H1 H0 M1 M0 S1 S0.
           w = time_str14 y3 y2 y1 y0 m1 m0 d1 d0 H1 H0 M1 M0 S1 S0 \<and>
           y3 < 10 \<and> y2 < 10 \<and> y1 < 10 \<and> y0 < 10 \<and> m1 < 10 \<and> m0 < 10 \<and> d1 < 10 \<and> d0 < 10 \<and>
           H1 < 10 \<and> H0 < 10 \<and> M1 < 10 \<and> M0 < 10 \<and> S1 < 10 \<and> S0 < 10"
proof -
  from assms obtain c1 c2 c3 c4 c5 c6 c7 c8 c9 c10 c11 c12 c13 c14 where
    w: "w = [c1, c2, c3, c4, CHR ''-'', c5, c6, CHR ''-'', c7, c8, CHR ''T'',
             c9, c10, CHR '':'', c11, c12, CHR '':'', c13, c14, CHR ''Z'']"
    and d: "is_digit c1" "is_digit c2" "is_digit c3" "is_digit c4" "is_digit c5" "is_digit c6"
      "is_digit c7" "is_digit c8" "is_digit c9" "is_digit c10" "is_digit c11" "is_digit c12"
      "is_digit c13" "is_digit c14"
    unfolding fixed_width_format_def
    by (auto split: list.splits)
  from d[THEN is_digit_digit_char_ex] w show ?thesis
    unfolding time_str14_def by (elim exE conjE) blast
qed

lemma fields_of_time_str14:
  assumes "y3 < 10" "y2 < 10" "y1 < 10" "y0 < 10" "m1 < 10" "m0 < 10" "d1 < 10" "d0 < 10"
      "H1 < 10" "H0 < 10" "M1 < 10" "M0 < 10" "S1 < 10" "S0 < 10"
  shows "fields_of (time_str14 y3 y2 y1 y0 m1 m0 d1 d0 H1 H0 M1 M0 S1 S0) =
         \<lparr>tm_year = 1000 * int y3 + 100 * int y2 + 10 * int y1 + int y0,
              tm_mon = 10 * int m1 + int m0, tm_mday = 10 * int d1 + int d0,
              tm_hour = 10 * int H1 + int H0, tm_min = 10 * int M1 + int M0,
              tm_sec = 10 * int S1 + int S0\<rparr>"
  using assms by (simp add: fields_of_def time_str14_def py_int_2 py_int_4)

lemma strptime_fixed_width_format:
  assumes w: "fixed_width_format w"
    and date: "check_date_fields (tm_year (fields_of w)) (tm_mon (fields_of w)) (tm_mday (fields_of w)) = Inr ymd"
    and rng: "tm_hour (fields_of w) \<le> 23" "tm_min (fields_of w) \<le> 59" "tm_sec (fields_of w) \<le> 61"
  shows "strptime w time_fmt = Inr (fields_of w)"
proof -
  from fixed_width_format_time_str14[OF w]
  obtain y3 y2 y1 y0 m1 m0 d1 d0 H1 H0 M1 M0 S1 S0 where
    weq: "w = time_str14 y3 y2 y1 y0 m1 m0 d1 d0 H1 H0 M1 M0 S1 S0"
    and dig: "y3 < 10" "y2 < 10" "y1 < 10" "y0 < 10" "m1 < 10" "m0 < 10" "d1 < 10" "d0 < 10"
      "H1 < 10" "H0 < 10" "M1 < 10" "M0 < 10" "S1 < 10" "S0 < 10"
    by blast
  note f = fields_of_time_str14[OF dig]
  have r: "10 * H1 + H0 \<le> 23" "10 * M1 + M0 \<le> 59" "10 * S1 + S0 \<le> 61"
    using rng unfolding weq f by simp_all
  have d: "check_date_fields (1000 * int y3 + 100 * int y2 + 10 * int y1 + int y0)
                 (10 * int m1 + int m0) (10 * int d1 + int d0) = Inr ymd"
    using date unfolding weq f by simp
  show ?thesis
    unfolding weq f by (rule strptime_fixed_width[OF dig r d])
qed

lemma time_str_len_20: "time_str_len = 20"
  by code_simp

section \<open>Properties of the nonce codec\<close>

text \<open>
  C1. For every Unix timestamp \<open>t\<close> that the fixed-width format can hold (from the epoch
  to the last second of the year 9999), every skew and every \<open>now\<close>,
  \<open>checkTimestamp(mkNonce(t), skew, now)\<close> is true if and only if
  \<open>now - skew \<le> t \<le> now + skew\<close>; both bounds are inclusive. This holds whatever the
  salt drawn and whatever the clocks read, and for a negative skew as well.
\<close>

theorem checkTimestamp_mkNonce_window:
  assumes "0 \<le> t" "t < 253402300800"
  shows "checkTimestamp clock (mkNonce clock' draw (Some t)) skew (Some now)
           = Inr (now - skew \<le> t \<and> t \<le> now + skew)"
  using split_mkNonce[of t clock' draw] assms
  by (simp add: checkTimestamp_eq MAX_TIME_def)

text \<open>
  The last second of 29 February 2000: five seconds later it is still accepted with a skew
  of five, six seconds later it is not.
\<close>

theorem checkTimestamp_mkNonce_window_witness:
  "(0::int) \<le> 951868799 \<and> (951868799::int) < 253402300800
   \<and> mkNonce 0 (\<lambda>i. i) (Some 951868799) = ''2000-02-29T23:59:59Zabcdef''
   \<and> checkTimestamp 0 (mkNonce 0 (\<lambda>i. i) (Some 951868799)) 5 (Some 951868804) = Inr True
   \<and> checkTimestamp 0 (mkNonce 0 (\<lambda>i. i) (Some 951868799)) 5 (Some 951868805) = Inr False"
proof -
  have m: "mkNonce 0 (\<lambda>i. i) (Some 951868799) = ''2000-02-29T23:59:59Zabcdef''" by code_simp
  have h: "(0::int) \<le> 951868799" "(951868799::int) < 253402300800" by simp_all
  from checkTimestamp_mkNonce_window[OF h, of 0 0 "\<lambda>i. i" 5 951868804] checkTimestamp_mkNonce_window[OF h, of 0 0 "\<lambda>i. i" 5 951868805] m h
  show ?thesis by simp
qed

text \<open>
  C7, as the code has it. \<open>split\<close> raises ValueError exactly when \<open>strptime\<close>
  rejects the leading substring of at most 20 characters under \<open>time_fmt\<close>, or the time
  parsed is negative; otherwise it returns the time parsed, in seconds since the epoch,
  and the rest of the string. A leading substring in the fixed-width layout
  \<open>YYYY-MM-DDTHH:MM:SSZ\<close> that names a day of the calendar, an hour up to 23, a minute up
  to 59 and a second up to 61 is always accepted by \<open>strptime\<close>, with the fields read at
  their positions.
\<close>

theorem split_characterisation:
  "split s =
     (case strptime (take time_str_len s) time_fmt of
        Inl e \<Rightarrow> Inl ValueError
      | Inr tm \<Rightarrow>
          if unix_time tm < 0 then Inl ValueError
          else Inr (unix_time tm, drop time_str_len s))
   \<and> (fixed_width_format (take time_str_len s)
        \<and> check_date_fields (tm_year (fields_of (take time_str_len s)))
             (tm_mon (fields_of (take time_str_len s)))
             (tm_mday (fields_of (take time_str_len s))) = Inr ymd
        \<and> tm_hour (fields_of (take time_str_len s)) \<le> 23
        \<and> tm_min (fields_of (take time_str_len s)) \<le> 59
        \<and> tm_sec (fields_of (take time_str_len s)) \<le> 61
      \<longrightarrow> strptime (take time_str_len s) time_fmt = Inr (fields_of (take time_str_len s)))"
  using split_eq[of s] strptime_fixed_width_format[of "take time_str_len s" ymd]
  by blast

text \<open>A fixed-width timestamp followed by a salt.\<close>

theorem split_characterisation_witness:
  "fixed_width_format (take time_str_len ''2005-05-15T17:11:51ZUNIQUE'')
   \<and> check_date_fields 2005 5 15 = Inr (2005, 5, 15)
   \<and> strptime (take time_str_len ''2005-05-15T17:11:51ZUNIQUE'') time_fmt
       = Inr \<lparr>tm_year = 2005, tm_mon = 5, tm_mday = 15, tm_hour = 17, tm_min = 11, tm_sec = 51\<rparr>
   \<and> split ''2005-05-15T17:11:51ZUNIQUE'' = Inr (1116177111, ''UNIQUE'')"
proof -
  let ?s = "''2005-05-15T17:11:51ZUNIQUE''"
  have f: "fields_of (take time_str_len ?s)
       = \<lparr>tm_year = 2005, tm_mon = 5, tm_mday = 15, tm_hour = 17, tm_min = 11, tm_sec = 51\<rparr>"
    by code_simp
  have w: "fixed_width_format (take time_str_len ?s)" by code_simp
  have c: "check_date_fields 2005 5 15 = Inr (2005, 5, 15)" by code_simp
  have u: "unix_time \<lparr>tm_year = 2005, tm_mon = 5, tm_mday = 15, tm_hour = 17, tm_min = 11, tm_sec = 51\<rparr>
       = 1116177111" by code_simp
  have d: "drop time_str_len ?s = ''UNIQUE''" by code_simp
  from split_characterisation[of ?s "(2005, 5, 15)"] w c
  have p: "strptime (take time_str_len ?s) time_fmt
       = Inr \<lparr>tm_year = 2005, tm_mon = 5, tm_mday = 15, tm_hour = 17, tm_min = 11, tm_sec = 51\<rparr>"
    and s: "split ?s =
     (case strptime (take time_str_len ?s) time_fmt of
        Inl e \<Rightarrow> Inl ValueError
      | Inr tm \<Rightarrow>
          if unix_time tm < 0 then Inl ValueError
          else Inr (unix_time tm, drop time_str_len ?s))"
    unfolding f by simp_all
  have "split ?s = Inr (1116177111, ''UNIQUE'')"
    unfolding s p sum.case u d by simp
  with w c p show ?thesis by blast
qed

text \<open>
  \<open>strptime\<close> accepts more than the fixed-width layout: fields of one digit are
  matched too, so a string of fifteen characters that is not in the layout is split
  without an error.
\<close>

theorem split_short_timestamp_accepted:
  "split ''1970-1-1T0:0:0Z'' = Inr (0, [])
   \<and> \<not> fixed_width_format (take time_str_len ''1970-1-1T0:0:0Z'')"
  by code_simp

text \<open>
  C8. For every text, skew and \<open>now\<close>, \<open>checkTimestamp\<close> returns a boolean and never
  raises; it returns false on every input on which \<open>split\<close> fails.
\<close>

theorem checkTimestamp_total:
  "(\<exists>b. checkTimestamp clock s skew now = Inr b)
   \<and> (\<forall>e. split s = Inl e \<longrightarrow> checkTimestamp clock s skew now = Inr False)"
  by (auto simp: checkTimestamp_eq split: sum.splits)

text \<open>An input that is no timestamp, with the default skew and the clock read.\<close>

theorem checkTimestamp_total_witness:
  "split ''not-a-date-blah'' = Inl ValueError
   \<and> checkTimestamp 0 ''not-a-date-blah'' SKEW None = Inr False"
proof -
  have s: "split ''not-a-date-blah'' = Inl ValueError" by code_simp
  from checkTimestamp_total[of 0 "''not-a-date-blah''" SKEW None] s
  have "checkTimestamp 0 ''not-a-date-blah'' SKEW None = Inr False" by blast
  with s show ?thesis by simp
qed

text \<open>
  C10. The result of \<open>checkTimestamp\<close> depends on the first 20 characters of the nonce
  only: two strings that agree on them get the same result for the same skew and
  \<open>now\<close>, whatever the salt (empty, or of any characters).
\<close>

theorem checkTimestamp_prefix_only:
  assumes "take 20 s = take 20 s'"
  shows "checkTimestamp clock s skew now = checkTimestamp clock s' skew now"
proof -
  have "take time_str_len s = take time_str_len s'"
    using assms by (simp only: time_str_len_20)
  then have "map_sum id fst (split s) = map_sum id fst (split s')"
    unfolding split_eq by (simp split: sum.splits)
  then show ?thesis
    unfolding checkTimestamp_eq
    by (cases "split s"; cases "split s'") (auto split: prod.splits)
qed

text \<open>A nonce with an empty salt, and one whose salt holds blanks and punctuation.\<close>

theorem checkTimestamp_prefix_only_witness:
  "take 20 ''1970-01-01T00:00:05Z'' = take 20 ''1970-01-01T00:00:05Z<salt> with blanks''
   \<and> checkTimestamp 0 ''1970-01-01T00:00:05Z'' 5 (Some 10) = Inr True
   \<and> checkTimestamp 0 ''1970-01-01T00:00:05Z<salt> with blanks'' 5 (Some 10) = Inr True"
proof -
  have t: "take 20 ''1970-01-01T00:00:05Z'' = take 20 ''1970-01-01T00:00:05Z<salt> with blanks''"
    by simp
  have c: "checkTimestamp 0 ''1970-01-01T00:00:05Z'' 5 (Some 10) = Inr True" by code_simp
  from checkTimestamp_prefix_only[OF t, of 0 5 "Some 10"] c t show ?thesis by simp
qed

end
